theory Spec2Isabelle
  imports Main "HOL-Library.Sublist" "HOL-Library.Multiset"
begin

section \<open>Name Transform: \<open>sanitize_name\<close>\<close>

text \<open>
  A Python \<open>str\<close> is a sequence of Unicode code points; it is modelled as a list of
  natural numbers, one per code point. \<open>ustr\<close> reads an ASCII literal as such a list.
\<close>

type_synonym ustring = "nat list"

definition ustr :: "string \<Rightarrow> ustring" where
  "ustr s = map of_char s"

definition hyphen :: nat where
  "hyphen = 45"

definition dot :: nat where
  "dot = 46"

definition slash :: nat where
  "slash = 47"

text \<open>
  \<open>unicodedata.normalize("NFKD", name)\<close> is a function of the Python library, driven by
  the Unicode decomposition tables; it is a parameter \<open>nfkd\<close> of the model. The one fact
  about it that properties of the transform use is that ASCII text has no decomposition:
  \<open>nfkd_ascii_id\<close>.
\<close>

definition is_ascii :: "nat \<Rightarrow> bool" where
  "is_ascii c \<longleftrightarrow> c < 128"

definition nfkd_ascii_id :: "(ustring \<Rightarrow> ustring) \<Rightarrow> bool" where
  "nfkd_ascii_id nfkd \<longleftrightarrow> (\<forall>s. list_all is_ascii s \<longrightarrow> nfkd s = s)"

text \<open>
  A fragment of the decomposition table (e-acute, n-tilde, the horizontal ellipsis and the
  fullwidth full stop), used to evaluate the transform at concrete names. Every theorem
  below that is not about a concrete name holds for every \<open>nfkd\<close>.
\<close>

definition decompose_sample :: "nat \<Rightarrow> ustring" where
  "decompose_sample c =
     (if c = 0xE9 then [0x65, 0x301]
      else if c = 0xC9 then [0x45, 0x301]
      else if c = 0xF1 then [0x6E, 0x303]
      else if c = 0x2026 then [0x2E, 0x2E, 0x2E]
      else if c = 0xFF0E then [0x2E]
      else [c])"

definition nfkd_sample :: "ustring \<Rightarrow> ustring" where
  "nfkd_sample s = concat (map decompose_sample s)"

text \<open>\<open>name.encode("ascii", "ignore").decode("ascii")\<close>: code points from 128 on are dropped.\<close>

definition ascii_ignore :: "ustring \<Rightarrow> ustring" where
  "ascii_ignore s = filter is_ascii s"

text \<open>\<open>name.lower()\<close>, on the ASCII text that the previous step leaves.\<close>

definition lower_char :: "nat \<Rightarrow> nat" where
  "lower_char c = (if 65 \<le> c \<and> c \<le> 90 then c + 32 else c)"

definition lower :: "ustring \<Rightarrow> ustring" where
  "lower s = map lower_char s"

text \<open>The character class \<open>[a-z0-9.]\<close> of the first regular expression.\<close>

definition keep :: "nat \<Rightarrow> bool" where
  "keep c \<longleftrightarrow> (97 \<le> c \<and> c \<le> 122) \<or> (48 \<le> c \<and> c \<le> 57) \<or> c = dot"

text \<open>
  \<open>re.sub(r"[C]+", repl, s)\<close> for a character class \<open>C\<close>: scanning from the left, every
  maximal run of characters of the class is replaced by \<open>repl\<close>.
\<close>

function re_sub_plus :: "(nat \<Rightarrow> bool) \<Rightarrow> ustring \<Rightarrow> ustring \<Rightarrow> ustring" where
  "re_sub_plus cls repl [] = []"
| "re_sub_plus cls repl (c # cs) =
     (if cls c then repl @ re_sub_plus cls repl (dropWhile cls cs)
      else c # re_sub_plus cls repl cs)"
  by pat_completeness auto
termination
  by (relation "measure (\<lambda>(cls, repl, s). length s)")
     (auto simp: length_dropWhile_le le_imp_less_Suc)

text \<open>\<open>s.strip(chars)\<close> for a single character: it is removed from both ends.\<close>

definition strip :: "nat \<Rightarrow> ustring \<Rightarrow> ustring" where
  "strip ch s = rev (dropWhile (\<lambda>c. c = ch) (rev (dropWhile (\<lambda>c. c = ch) s)))"

definition sanitize_name :: "(ustring \<Rightarrow> ustring) \<Rightarrow> ustring \<Rightarrow> ustring" where
  "sanitize_name nfkd name =
     (let name = nfkd name;
          name = ascii_ignore name;
          name = lower name;
          name = re_sub_plus (\<lambda>c. \<not> keep c) [hyphen] name;
          name = re_sub_plus (\<lambda>c. c = hyphen) [hyphen] name;
          name = strip hyphen name
      in name)"

text \<open>The sanitized form: only \<open>[a-z0-9.-]\<close>, no hyphen at either end, no \<open>--\<close>.\<close>

definition alphabet :: ustring where
  "alphabet = ustr ''abcdefghijklmnopqrstuvwxyz0123456789.-''"

definition well_formed :: "ustring \<Rightarrow> bool" where
  "well_formed s \<longleftrightarrow>
     set s \<subseteq> set alphabet \<and> \<not> prefix [hyphen] s \<and> \<not> suffix [hyphen] s \<and>
     \<not> sublist [hyphen, hyphen] s"

text \<open>The characters that the two substitutions leave: the kept class and the hyphen.\<close>

definition allowed :: "nat \<Rightarrow> bool" where
  "allowed c \<longleftrightarrow> keep c \<or> c = hyphen"

section \<open>Tree Renamer: the filesystem\<close>

text \<open>
  A path is the list of its components below the anchor, each a name; \<open>len(p.parts)\<close>
  is the length of this list (plus one for the anchor of an absolute path, the same for
  every path of a run). The filesystem is the list of its entries, in the order in which a
  directory listing yields them, each with its kind and under its resolved path. It is a
  case-sensitive POSIX filesystem without symbolic links; the anchor itself is a directory
  that always exists.
\<close>

type_synonym path = "ustring list"

datatype kind = FILE | FOLDER

type_synonym filesystem = "(path \<times> kind) list"

text \<open>
  The error numbers with which a system call fails, and the exceptions of a run: the
  \<open>ValueError\<close> of \<open>Path.with_name\<close>, an \<open>OSError\<close> with its error number
  (\<open>PermissionError\<close> is the one of \<open>EACCES\<close> and \<open>EPERM\<close>), and the \<open>BadParameter\<close> with
  which typer rejects a command-line argument.
\<close>

datatype errno = ENOENT | ENOTDIR | EACCES | EPERM | EEXIST | EINVAL | EIO

datatype exn =
    ValueError
  | OSError errno
  | BadParameter

text \<open>
  The environment can make any system call fail, whatever the tree holds (a directory that
  can be listed and not searched, a device error): \<open>fault\<close> says which calls fail, and
  with which error number.
\<close>

datatype syscall = Stat path | Rename path

type_synonym faults = "syscall \<Rightarrow> errno option"

text \<open>The calls of \<open>log\<close> and \<open>logging\<close>, one constructor per message of the source.\<close>

datatype event =
    PathMissing path
  | Scanning path
  | Found nat
  | Collision path
  | DryRun kind ustring ustring
  | Success ustring ustring
  | PermissionDenied kind ustring
  | Unexpected exn

text \<open>What a call leaves: the exception it raised, if any, the filesystem and the log.\<close>

record run =
  raised :: "exn option"
  fs_after :: filesystem
  events :: "event list"

text \<open>
  Path resolution, component by component from the directory reached so far: a component
  can only be looked up in a directory (\<open>ENOTDIR\<close> otherwise), \<open>.\<close> stays, \<open>..\<close> goes
  to the parent (the anchor is its own parent), and a name must be an entry (\<open>ENOENT\<close>
  otherwise). The result is the resolved path and its kind.
\<close>

fun walk :: "filesystem \<Rightarrow> path \<Rightarrow> kind \<Rightarrow> path \<Rightarrow> errno + (path \<times> kind)" where
  "walk fs cur k [] = Inr (cur, k)"
| "walk fs cur k (c # cs) =
     (if k \<noteq> FOLDER then Inl ENOTDIR
      else if c = [dot] then walk fs cur FOLDER cs
      else if c = [dot, dot] then walk fs (butlast cur) FOLDER cs
      else (case map_of fs (cur @ [c]) of
              None \<Rightarrow> Inl ENOENT
            | Some k' \<Rightarrow> walk fs (cur @ [c]) k' cs))"

text \<open>\<open>os.stat\<close>: the kind of the entry that the path resolves to.\<close>

definition os_stat :: "faults \<Rightarrow> filesystem \<Rightarrow> path \<Rightarrow> errno + kind" where
  "os_stat fault fs p =
     (case fault (Stat p) of
        Some e \<Rightarrow> Inl e
      | None \<Rightarrow> (case walk fs [] FOLDER p of Inl e \<Rightarrow> Inl e | Inr (q, k) \<Rightarrow> Inr k))"

text \<open>
  \<open>Path.exists\<close> and \<open>Path.is_dir\<close>, as pathlib has them: an \<open>OSError\<close> of \<open>os.stat\<close>
  that says the path is not there is answered with \<open>False\<close>, and any other one is raised
  again.
\<close>

definition ignore_error :: "errno \<Rightarrow> bool" where
  "ignore_error e \<longleftrightarrow> e = ENOENT \<or> e = ENOTDIR"

definition fs_exists :: "faults \<Rightarrow> filesystem \<Rightarrow> path \<Rightarrow> exn + bool" where
  "fs_exists fault fs p =
     (case os_stat fault fs p of
        Inr k \<Rightarrow> Inr True
      | Inl e \<Rightarrow> if ignore_error e then Inr False else Inl (OSError e))"

definition fs_is_dir :: "faults \<Rightarrow> filesystem \<Rightarrow> path \<Rightarrow> exn + bool" where
  "fs_is_dir fault fs p =
     (case os_stat fault fs p of
        Inr k \<Rightarrow> Inr (k = FOLDER)
      | Inl e \<Rightarrow> if ignore_error e then Inr False else Inl (OSError e))"

text \<open>
  \<open>Path.rglob("*")\<close>: nothing when the path is not a directory (the \<open>is_dir\<close> of this
  test can raise); otherwise every entry below the directory that the path resolves to, in
  listing order, each as the path itself followed by the entry's components below it. The
  listing itself is taken to succeed.
\<close>

definition rglob :: "faults \<Rightarrow> filesystem \<Rightarrow> path \<Rightarrow> exn + path list" where
  "rglob fault fs root =
     (case fs_is_dir fault fs root of
        Inl e \<Rightarrow> Inl e
      | Inr False \<Rightarrow> Inr []
      | Inr True \<Rightarrow>
          (case walk fs [] FOLDER root of
             Inl e \<Rightarrow> Inr []
           | Inr (r, k) \<Rightarrow>
               Inr (map (\<lambda>q. root @ drop (length r) q) (filter (strict_prefix r) (map fst fs)))))"

text \<open>\<open>Path.name\<close>: the last component, empty for the anchor.\<close>

definition path_name :: "path \<Rightarrow> ustring" where
  "path_name p = (if p = [] then [] else last p)"

text \<open>
  \<open>Path.with_name(name)\<close>: the sibling path of that name. It raises \<open>ValueError\<close> when
  the path has no name, and when the new name is empty, is \<open>.\<close> or holds a separator.
\<close>

definition with_name :: "path \<Rightarrow> ustring \<Rightarrow> exn + path" where
  "with_name p name =
     (if path_name p = [] then Inl ValueError
      else if name = [] \<or> name = [dot] \<or> slash \<in> set name then Inl ValueError
      else Inr (butlast p @ [name]))"

text \<open>
  \<open>Path.rename(target)\<close>, that is \<open>os.rename\<close>: the source must resolve to an entry and
  the parent of the target to a directory; the entry then moves, with everything below
  it, to the target's name in that directory. \<open>rename_item\<close> calls it for a free target
  only; for an occupied one the model refuses, as Windows does.
\<close>

definition fs_rename :: "faults \<Rightarrow> filesystem \<Rightarrow> path \<Rightarrow> path \<Rightarrow> errno + filesystem" where
  "fs_rename fault fs src dst =
     (case fault (Rename src) of
        Some e \<Rightarrow> Inl e
      | None \<Rightarrow>
          (case walk fs [] FOLDER src of
             Inl e \<Rightarrow> Inl e
           | Inr (s, k) \<Rightarrow>
               (case walk fs [] FOLDER (butlast dst) of
                  Inl e \<Rightarrow> Inl e
                | Inr (d, k') \<Rightarrow>
                    if k' \<noteq> FOLDER then Inl ENOTDIR
                    else if s = [] \<or> dst = [] \<or> last dst = [dot] \<or> last dst = [dot, dot]
                    then Inl EINVAL
                    else if strict_prefix s (d @ [last dst]) then Inl EINVAL
                    else if map_of fs (d @ [last dst]) \<noteq> None then Inl EEXIST
                    else
                      Inr (map (\<lambda>(p, k).
                             (if prefix s p then d @ [last dst] @ drop (length s) p else p, k))
                           fs))))"

section \<open>Tree Renamer: \<open>rename_item\<close>, \<open>rename_files\<close>, \<open>run_sanitizer\<close>\<close>

text \<open>
  Only the call of \<open>rename\<close> stands in the \<open>try\<close>: an exception of \<open>with_name\<close> or of
  \<open>exists\<close> leaves \<open>rename_item\<close>.
\<close>

definition rename_item ::
  "(ustring \<Rightarrow> ustring) \<Rightarrow> faults \<Rightarrow> path \<Rightarrow> kind \<Rightarrow> bool \<Rightarrow> filesystem \<Rightarrow> run"
  where
  "rename_item nfkd fault item_path item_type dry_run fs =
     (let old_name = path_name item_path;
          new_name = sanitize_name nfkd old_name
      in case with_name item_path new_name of
           Inl e \<Rightarrow> \<lparr>raised = Some e, fs_after = fs, events = []\<rparr>
         | Inr new_path \<Rightarrow>
             if item_path = new_path then \<lparr>raised = None, fs_after = fs, events = []\<rparr>
             else
               (case fs_exists fault fs new_path of
                  Inl e \<Rightarrow> \<lparr>raised = Some e, fs_after = fs, events = []\<rparr>
                | Inr True \<Rightarrow> \<lparr>raised = None, fs_after = fs, events = [Collision new_path]\<rparr>
                | Inr False \<Rightarrow>
                    if dry_run
                    then \<lparr>raised = None, fs_after = fs,
                          events = [DryRun item_type old_name new_name]\<rparr>
                    else
                      (case fs_rename fault fs item_path new_path of
                         Inr fs' \<Rightarrow>
                           \<lparr>raised = None, fs_after = fs',
                            events = [Success old_name new_name]\<rparr>
                       | Inl e \<Rightarrow>
                           if e = EACCES \<or> e = EPERM
                           then \<lparr>raised = None, fs_after = fs,
                                 events = [PermissionDenied item_type old_name]\<rparr>
                           else \<lparr>raised = None, fs_after = fs,
                                 events = [Unexpected (OSError e)]\<rparr>)))"

text \<open>\<open>len(p.parts)\<close>, and the stable sort on it with \<open>reverse=True\<close>: deepest first.\<close>

definition depth :: "path \<Rightarrow> nat" where
  "depth p = length p"

definition sort_by_depth :: "path list \<Rightarrow> path list" where
  "sort_by_depth paths = sort_key (\<lambda>p. - int (depth p)) paths"

text \<open>
  The loop of \<open>rename_files\<close>, over the entries in their order: an exception of \<open>is_dir\<close>
  or of \<open>rename_item\<close> ends it.
\<close>

fun process ::
  "(ustring \<Rightarrow> ustring) \<Rightarrow> faults \<Rightarrow> path list \<Rightarrow> bool \<Rightarrow> filesystem \<Rightarrow> run"
  where
  "process nfkd fault [] dry_run fs = \<lparr>raised = None, fs_after = fs, events = []\<rparr>"
| "process nfkd fault (p # ps) dry_run fs =
     (case fs_is_dir fault fs p of
        Inl e \<Rightarrow> \<lparr>raised = Some e, fs_after = fs, events = []\<rparr>
      | Inr d \<Rightarrow>
          (let kind = (if d then FOLDER else FILE);
               r = rename_item nfkd fault p kind dry_run fs
           in case raised r of
                Some e \<Rightarrow> r
              | None \<Rightarrow>
                  (let r' = process nfkd fault ps dry_run (fs_after r)
                   in r'\<lparr>events := events r @ events r'\<rparr>)))"

definition rename_files ::
  "(ustring \<Rightarrow> ustring) \<Rightarrow> faults \<Rightarrow> path \<Rightarrow> bool \<Rightarrow> filesystem \<Rightarrow> run" where
  "rename_files nfkd fault target_path dry_run fs =
     (case fs_exists fault fs target_path of
        Inl e \<Rightarrow> \<lparr>raised = Some e, fs_after = fs, events = []\<rparr>
      | Inr False \<Rightarrow> \<lparr>raised = None, fs_after = fs, events = [PathMissing target_path]\<rparr>
      | Inr True \<Rightarrow>
          (case rglob fault fs target_path of
             Inl e \<Rightarrow> \<lparr>raised = Some e, fs_after = fs, events = []\<rparr>
           | Inr paths \<Rightarrow>
               (let paths = sort_by_depth paths;
                    r = process nfkd fault paths dry_run fs
                in r\<lparr>events := Found (length paths) # events r\<rparr>)))"


section \<open>Reading a run, and the trees of the examples\<close>

text \<open>
  What a Simulate run may log: the messages of \<open>rename_files\<close>, collisions, and would-be
  renames with the old name and its sanitized form.
\<close>

definition dry_run_event :: "(ustring \<Rightarrow> ustring) \<Rightarrow> event \<Rightarrow> bool" where
  "dry_run_event nfkd e =
     (case e of
        PathMissing p \<Rightarrow> True
      | Found n \<Rightarrow> True
      | Collision q \<Rightarrow> True
      | DryRun k old new \<Rightarrow> new = sanitize_name nfkd old
      | _ \<Rightarrow> False)"

text \<open>An environment in which no call fails.\<close>

definition no_fault :: faults where
  "no_fault c = None"

text \<open>
  An environment in which the directory \<open>root\<close> can be listed and not searched: every
  \<open>os.stat\<close> of a path below it fails with \<open>EACCES\<close>.
\<close>

definition locked_root :: faults where
  "locked_root c =
     (case c of
        Stat p \<Rightarrow> if strict_prefix [ustr ''root''] p then Some EACCES else None
      | Rename p \<Rightarrow> None)"

definition tree_blank :: filesystem where
  "tree_blank =
     [([ustr ''root''], FOLDER),
      ([ustr ''root'', ustr ''B.txt''], FILE),
      ([ustr ''root'', ustr ''d''], FOLDER),
      ([ustr ''root'', ustr ''d'', ustr ''___''], FILE)]"

definition tree_nested :: filesystem where
  "tree_nested =
     [([ustr ''root''], FOLDER),
      ([ustr ''root'', ustr ''A''], FOLDER),
      ([ustr ''root'', ustr ''A'', ustr ''b.TXT''], FILE)]"

definition tree_clash :: filesystem where
  "tree_clash =
     [([ustr ''root''], FOLDER),
      ([ustr ''root'', ustr ''File.txt''], FILE),
      ([ustr ''root'', ustr ''file.txt''], FILE)]"

definition tree_plain :: filesystem where
  "tree_plain =
     [([ustr ''root''], FOLDER),
      ([ustr ''root'', ustr ''notes.txt''], FILE)]"

section \<open>Properties of the Name Transform\<close>

lemmas char_defs = hyphen_def dot_def slash_def

lemmas sanitize_eval =
  sanitize_name_def nfkd_sample_def decompose_sample_def ustr_def ascii_ignore_def is_ascii_def
  lower_def lower_char_def keep_def strip_def char_defs

text \<open>The examples of the test suite, and the empty name.\<close>

lemma sanitize_my_file: "sanitize_name nfkd_sample (ustr ''My File.txt'') = ustr ''my-file.txt''"
  by (simp add: sanitize_eval)

lemma sanitize_resume:
  "sanitize_name nfkd_sample [0x52, 0xE9, 0x73, 0x75, 0x6D, 0xE9, 0x2E, 0x6D, 0x64] = ustr ''resume.md''"
  by (simp add: sanitize_eval)

lemma sanitize_leading: "sanitize_name nfkd_sample (ustr ''  Leading  '') = ustr ''leading''"
  by (simp add: sanitize_eval)

lemma sanitize_empty: "sanitize_name nfkd_sample [] = []"
  by (simp add: sanitize_eval)

subsection \<open>The alphabet\<close>

lemma alphabet_codes: "set alphabet = {97..<123} \<union> {48..<58} \<union> {46, 45}"
proof -
  have "set alphabet = set ([97..<123] @ [48..<58] @ [46, 45])"
    by (simp add: alphabet_def ustr_def upt_rec)
  then show ?thesis
    by (simp only: set_append set_upt Un_assoc list.set)
qed

lemma allowed_alphabet: "allowed c \<longleftrightarrow> c \<in> set alphabet"
  unfolding alphabet_codes by (auto simp: allowed_def keep_def dot_def hyphen_def)

lemma well_formed_iff:
  "well_formed s \<longleftrightarrow>
     list_all allowed s \<and> \<not> prefix [hyphen] s \<and> \<not> suffix [hyphen] s \<and>
     \<not> sublist [hyphen, hyphen] s"
  by (auto simp: well_formed_def list_all_iff allowed_alphabet)

subsection \<open>Each step of the transform\<close>

lemma allowed_hyphen: "allowed hyphen"
  by (simp add: allowed_def)

lemma not_keep_hyphen: "\<not> keep hyphen"
  by (simp add: keep_def hyphen_def dot_def)

lemma keep_dot: "keep dot"
  by (simp add: keep_def)

lemma allowed_ascii: "allowed c \<Longrightarrow> is_ascii c"
  by (auto simp: allowed_def keep_def is_ascii_def hyphen_def dot_def)

lemma allowed_lower: "allowed c \<Longrightarrow> lower_char c = c"
  by (auto simp: allowed_def keep_def lower_char_def hyphen_def dot_def)

lemma list_all_dropWhile: "list_all P xs \<Longrightarrow> list_all P (dropWhile Q xs)"
  by (induction xs) auto

lemma re_sub_plus_all:
  "list_all P repl \<Longrightarrow> list_all (\<lambda>c. cls c \<or> P c) s \<Longrightarrow> list_all P (re_sub_plus cls repl s)"
proof (induction cls repl s rule: re_sub_plus.induct)
  case (1 cls repl)
  then show ?case by simp
next
  case (2 cls repl c cs)
  then show ?case by (auto simp: list_all_dropWhile)
qed

lemma special_allowed: "list_all allowed (re_sub_plus (\<lambda>c. \<not> keep c) [hyphen] s)"
  by (rule re_sub_plus_all) (auto simp: allowed_def list_all_iff)

lemma collapse_allowed:
  "list_all allowed s \<Longrightarrow> list_all allowed (re_sub_plus (\<lambda>c. c = hyphen) [hyphen] s)"
  by (rule re_sub_plus_all) (auto simp: allowed_def list_all_iff)

lemma dropWhile_head: "\<not> prefix [c] (dropWhile (\<lambda>d. d = c) s)"
  by (induction s) auto

lemma collapse_head:
  "\<not> prefix [hyphen] s \<Longrightarrow> \<not> prefix [hyphen] (re_sub_plus (\<lambda>c. c = hyphen) [hyphen] s)"
  by (cases s) auto

lemma collapse_no_run: "\<not> sublist [hyphen, hyphen] (re_sub_plus (\<lambda>c. c = hyphen) [hyphen] s)"
proof (induction "\<lambda>c. c = hyphen" "[hyphen]" s rule: re_sub_plus.induct)
  case 1
  then show ?case by simp
next
  case (2 c cs)
  show ?case
  proof (cases "c = hyphen")
    case True
    have "\<not> prefix [hyphen] (re_sub_plus (\<lambda>c. c = hyphen) [hyphen] (dropWhile (\<lambda>d. d = hyphen) cs))"
      by (rule collapse_head) (rule dropWhile_head)
    with True 2 show ?thesis by (simp add: sublist_Cons_right)
  next
    case False
    with 2 show ?thesis by (simp add: sublist_Cons_right)
  qed
qed

lemma strip_prefix_drop: "prefix (strip ch s) (dropWhile (\<lambda>c. c = ch) s)"
proof -
  let ?P = "\<lambda>c. c = ch"
  let ?d = "dropWhile ?P s"
  have "rev (takeWhile ?P (rev ?d) @ dropWhile ?P (rev ?d)) = ?d"
    by (simp only: takeWhile_dropWhile_id rev_rev_ident)
  then have "rev (dropWhile ?P (rev ?d)) @ rev (takeWhile ?P (rev ?d)) = ?d"
    by (simp only: rev_append)
  then show ?thesis
    unfolding strip_def by (metis prefixI)
qed

lemma strip_sublist: "sublist (strip ch s) s"
  using strip_prefix_drop [of ch s] suffix_dropWhile [of "\<lambda>c. c = ch" s]
  by (meson prefix_imp_sublist suffix_imp_sublist sublist_order.order.trans)

lemma strip_no_lead: "\<not> prefix [ch] (strip ch s)"
  using strip_prefix_drop [of ch s] dropWhile_head [of ch s]
  by (meson prefix_order.trans)

lemma strip_no_trail: "\<not> suffix [ch] (strip ch s)"
  using dropWhile_head [of ch "rev (dropWhile (\<lambda>c. c = ch) s)"]
  by (simp add: strip_def suffix_to_prefix)

lemma strip_all: "list_all P s \<Longrightarrow> list_all P (strip ch s)"
  using strip_sublist [of ch s] by (auto simp: list_all_iff dest: set_mono_sublist)

lemma sanitize_well_formed: "well_formed (sanitize_name nfkd s)"
  unfolding well_formed_iff sanitize_name_def Let_def
proof (intro conjI)
  let ?t = "re_sub_plus (\<lambda>c. c = hyphen) [hyphen]
     (re_sub_plus (\<lambda>c. \<not> keep c) [hyphen] (lower (ascii_ignore (nfkd s))))"
  show "list_all allowed (strip hyphen ?t)"
    by (intro strip_all collapse_allowed special_allowed)
  show "\<not> prefix [hyphen] (strip hyphen ?t)" by (rule strip_no_lead)
  show "\<not> suffix [hyphen] (strip hyphen ?t)" by (rule strip_no_trail)
  show "\<not> sublist [hyphen, hyphen] (strip hyphen ?t)"
    using collapse_no_run strip_sublist sublist_order.order.trans by blast
qed


lemma dropWhile_id: "\<not> prefix [c] s \<Longrightarrow> dropWhile (\<lambda>d. d = c) s = s"
  by (cases s) auto

lemma special_fixed:
  "list_all allowed s \<Longrightarrow> \<not> sublist [hyphen, hyphen] s \<Longrightarrow>
   re_sub_plus (\<lambda>c. \<not> keep c) [hyphen] s = s"
proof (induction s)
  case Nil
  then show ?case by simp
next
  case (Cons c cs)
  then have IH: "re_sub_plus (\<lambda>c. \<not> keep c) [hyphen] cs = cs"
    by (simp add: sublist_Cons_right)
  show ?case
  proof (cases "keep c")
    case True
    with IH show ?thesis by simp
  next
    case False
    with Cons.prems have c: "c = hyphen" by (simp add: allowed_def)
    have "dropWhile (\<lambda>c. \<not> keep c) cs = cs"
    proof (cases cs)
      case Nil
      then show ?thesis by simp
    next
      case (Cons d ds)
      with Cons.prems c have "d \<noteq> hyphen" "allowed d"
        by (auto simp: sublist_Cons_right)
      with Cons show ?thesis by (simp add: allowed_def)
    qed
    with False c IH show ?thesis by simp
  qed
qed

lemma collapse_fixed:
  "\<not> sublist [hyphen, hyphen] s \<Longrightarrow> re_sub_plus (\<lambda>c. c = hyphen) [hyphen] s = s"
proof (induction s)
  case Nil
  then show ?case by simp
next
  case (Cons c cs)
  then have IH: "re_sub_plus (\<lambda>c. c = hyphen) [hyphen] cs = cs"
    by (simp add: sublist_Cons_right)
  show ?case
  proof (cases "c = hyphen")
    case True
    with Cons.prems have "\<not> prefix [hyphen] cs"
      by (simp add: sublist_Cons_right)
    then have "dropWhile (\<lambda>c. c = hyphen) cs = cs"
      by (rule dropWhile_id)
    with True IH show ?thesis by simp
  next
    case False
    with IH show ?thesis by simp
  qed
qed

lemma strip_fixed: "\<not> prefix [ch] s \<Longrightarrow> \<not> suffix [ch] s \<Longrightarrow> strip ch s = s"
  by (simp add: strip_def dropWhile_id suffix_to_prefix)

lemma well_formed_fixed:
  assumes "nfkd_ascii_id nfkd" and "well_formed s"
  shows "sanitize_name nfkd s = s"
proof -
  from assms(2) have al: "list_all allowed s" and lead: "\<not> prefix [hyphen] s"
    and trail: "\<not> suffix [hyphen] s" and run: "\<not> sublist [hyphen, hyphen] s"
    by (simp_all add: well_formed_iff)
  from al have "list_all is_ascii s"
    by (auto simp: list_all_iff allowed_ascii)
  with assms(1) have 1: "nfkd s = s" and 2: "ascii_ignore s = s"
    by (auto simp: nfkd_ascii_id_def ascii_ignore_def list_all_iff)
  from al have 3: "lower s = s"
    by (auto simp: lower_def list_all_iff allowed_lower intro: map_idI)
  show ?thesis
    by (simp add: sanitize_name_def 1 2 3 special_fixed [OF al run] collapse_fixed [OF run]
        strip_fixed [OF lead trail])
qed

lemma filter_dropWhile_not: "(\<And>c. cls c \<Longrightarrow> \<not> P c) \<Longrightarrow> filter P (dropWhile cls s) = filter P s"
  by (induction s) auto

lemma re_sub_plus_filter:
  "(\<And>c. cls c \<Longrightarrow> \<not> P c) \<Longrightarrow> filter P repl = [] \<Longrightarrow>
   filter P (re_sub_plus cls repl s) = filter P s"
proof (induction cls repl s rule: re_sub_plus.induct)
  case (1 cls repl)
  then show ?case by simp
next
  case (2 cls repl c cs)
  then show ?case by (auto simp: filter_dropWhile_not)
qed

lemma strip_filter:
  assumes "\<not> P ch"
  shows "filter P (strip ch s) = filter P s"
proof -
  have drop: "filter P (dropWhile (\<lambda>c. c = ch) t) = filter P t" for t
    using assms by (intro filter_dropWhile_not) simp
  have "filter P (strip ch s) = rev (filter P (dropWhile (\<lambda>c. c = ch) (rev (dropWhile (\<lambda>c. c = ch) s))))"
    by (simp add: strip_def rev_filter)
  also have "\<dots> = rev (filter P (rev (dropWhile (\<lambda>c. c = ch) s)))"
    by (simp only: drop)
  also have "\<dots> = filter P (dropWhile (\<lambda>c. c = ch) s)"
    by (simp add: rev_filter)
  also have "\<dots> = filter P s"
    by (rule drop)
  finally show ?thesis .
qed

lemma sanitize_keeps:
  "filter keep (sanitize_name nfkd s) = filter keep (lower (ascii_ignore (nfkd s)))"
proof -
  have 1: "filter keep (re_sub_plus (\<lambda>c. \<not> keep c) [hyphen] t) = filter keep t" for t
    by (rule re_sub_plus_filter) (simp_all add: not_keep_hyphen)
  have 2: "filter keep (re_sub_plus (\<lambda>c. c = hyphen) [hyphen] t) = filter keep t" for t
    by (rule re_sub_plus_filter) (simp_all add: not_keep_hyphen)
  show ?thesis
    by (simp add: sanitize_name_def strip_filter [of keep hyphen, OF not_keep_hyphen] 1 2)
qed

lemma lower_dots: "filter (\<lambda>c. c = dot) (lower s) = filter (\<lambda>c. c = dot) s"
  by (induction s) (auto simp: lower_def lower_char_def dot_def)

lemma sanitize_dots:
  "filter (\<lambda>c. c = dot) (sanitize_name nfkd s) = filter (\<lambda>c. c = dot) (ascii_ignore (nfkd s))"
proof -
  have "filter (\<lambda>c. c = dot) t = filter (\<lambda>c. c = dot) (filter keep t)" for t
    by (induction t) (auto simp: keep_dot)
  then show ?thesis
    by (metis sanitize_keeps lower_dots)
qed

lemma dots_well_formed: "well_formed (replicate n dot)"
proof -
  have no: "hyphen \<notin> set (replicate n dot)"
    by (simp add: hyphen_def dot_def)
  have "\<not> sublist [hyphen, hyphen] (replicate n dot)"
  proof
    assume "sublist [hyphen, hyphen] (replicate n dot)"
    then have "set [hyphen, hyphen] \<subseteq> set (replicate n dot)"
      by (rule set_mono_sublist)
    with no show False by simp
  qed
  moreover have "\<not> prefix [hyphen] (replicate n dot)"
  proof
    assume "prefix [hyphen] (replicate n dot)"
    then have "set [hyphen] \<subseteq> set (replicate n dot)"
      by (rule set_mono_prefix)
    with no show False by simp
  qed
  moreover have "\<not> suffix [hyphen] (replicate n dot)"
  proof
    assume "suffix [hyphen] (replicate n dot)"
    then have "set [hyphen] \<subseteq> set (replicate n dot)"
      by (rule set_mono_suffix)
    with no show False by simp
  qed
  moreover have "list_all allowed (replicate n dot)"
    by (simp add: list_all_iff allowed_def keep_dot)
  ultimately show ?thesis
    unfolding well_formed_iff by blast
qed

lemma nfkd_sample_ascii: "nfkd_ascii_id nfkd_sample"
proof -
  have "list_all is_ascii s \<Longrightarrow> concat (map decompose_sample s) = s" for s
    by (induction s) (auto simp: decompose_sample_def is_ascii_def)
  then show ?thesis
    by (simp add: nfkd_ascii_id_def nfkd_sample_def)
qed



subsection \<open>Guarantees of the Name Transform\<close>

text \<open>
  C4. For every string \<open>s\<close>, \<open>sanitize_name s\<close> contains only characters of
  \<open>a-z\<close>, \<open>0-9\<close>, \<open>.\<close> and \<open>-\<close>, neither starts nor ends with a hyphen, and has no
  substring \<open>--\<close>. This holds whatever the normalisation does.
\<close>

theorem sanitize_name_well_formed:
  "set (sanitize_name nfkd s) \<subseteq> set (ustr ''abcdefghijklmnopqrstuvwxyz0123456789.-'') \<and>
   \<not> prefix (ustr ''-'') (sanitize_name nfkd s) \<and>
   \<not> suffix (ustr ''-'') (sanitize_name nfkd s) \<and>
   \<not> sublist (ustr ''--'') (sanitize_name nfkd s)"
proof -
  have "well_formed (sanitize_name nfkd s)"
    by (rule sanitize_well_formed)
  moreover have "ustr ''-'' = [hyphen]" and "ustr ''--'' = [hyphen, hyphen]"
    by (simp_all add: ustr_def hyphen_def)
  ultimately show ?thesis
    by (simp add: well_formed_def alphabet_def)
qed

theorem sanitize_name_well_formed_witness:
  "sanitize_name nfkd_sample (ustr ''  --My  File--.txt-'') = ustr ''my-file-.txt'' \<and>
   set (ustr ''my-file-.txt'') \<subseteq> set (ustr ''abcdefghijklmnopqrstuvwxyz0123456789.-'') \<and>
   \<not> prefix (ustr ''-'') (ustr ''my-file-.txt'') \<and>
   \<not> suffix (ustr ''-'') (ustr ''my-file-.txt'') \<and>
   \<not> sublist (ustr ''--'') (ustr ''my-file-.txt'')"
proof -
  have e: "sanitize_name nfkd_sample (ustr ''  --My  File--.txt-'') = ustr ''my-file-.txt''"
    by (simp add: sanitize_eval)
  show ?thesis
    using sanitize_name_well_formed [of nfkd_sample "ustr ''  --My  File--.txt-''"]
    unfolding e by (simp add: e)
qed

text \<open>
  C3. For every string \<open>s\<close>, \<open>sanitize_name (sanitize_name s) = sanitize_name s\<close>, for a
  normalisation that leaves ASCII text as it is.
\<close>

theorem sanitize_name_idempotent:
  assumes "nfkd_ascii_id nfkd"
  shows "sanitize_name nfkd (sanitize_name nfkd s) = sanitize_name nfkd s"
  using assms sanitize_well_formed by (rule well_formed_fixed)

theorem sanitize_name_idempotent_witness:
  "nfkd_ascii_id nfkd_sample \<and>
   sanitize_name nfkd_sample (ustr ''My File.txt'') = ustr ''my-file.txt'' \<and>
   sanitize_name nfkd_sample (sanitize_name nfkd_sample (ustr ''My File.txt'')) = ustr ''my-file.txt''"
  using sanitize_name_idempotent [OF nfkd_sample_ascii, of "ustr ''My File.txt''"]
  by (simp add: nfkd_sample_ascii sanitize_my_file)

text \<open>
  C10. Every string in sanitized form (only \<open>a-z\<close>, \<open>0-9\<close>, \<open>.\<close> and \<open>-\<close>, no hyphen at
  either end, no \<open>--\<close>) is a fixed point of \<open>sanitize_name\<close>, so the strings in sanitized
  form are exactly the image of the transform; for a normalisation that leaves ASCII text
  as it is.
\<close>

theorem well_formed_fixed_point:
  assumes "nfkd_ascii_id nfkd"
  shows "(\<forall>s. well_formed s \<longrightarrow> sanitize_name nfkd s = s) \<and>
         range (sanitize_name nfkd) = {s. well_formed s}"
proof -
  have fixed: "sanitize_name nfkd s = s" if "well_formed s" for s
    using assms that by (rule well_formed_fixed)
  have "range (sanitize_name nfkd) = {s. well_formed s}"
  proof (intro equalityI subsetI)
    fix t
    assume "t \<in> range (sanitize_name nfkd)"
    then show "t \<in> {s. well_formed s}"
      by (auto simp: sanitize_well_formed)
  next
    fix t
    assume "t \<in> {s. well_formed s}"
    then have "sanitize_name nfkd t = t"
      by (simp add: fixed)
    then show "t \<in> range (sanitize_name nfkd)"
      by (metis rangeI)
  qed
  with fixed show ?thesis by blast
qed

lemma well_formed_example: "well_formed (ustr ''a-b.c-9'')"
proof -
  have "\<not> sublist [hyphen, hyphen] (ustr ''a-b.c-9'')"
    by (simp add: ustr_def hyphen_def sublist_Cons_right)
  then show ?thesis
    by (simp add: well_formed_def alphabet_def ustr_def hyphen_def suffix_to_prefix)
qed

theorem well_formed_fixed_point_witness:
  "nfkd_ascii_id nfkd_sample \<and> well_formed (ustr ''a-b.c-9'') \<and>
   sanitize_name nfkd_sample (ustr ''a-b.c-9'') = ustr ''a-b.c-9'' \<and>
   ustr ''a-b.c-9'' \<in> range (sanitize_name nfkd_sample)"
  using well_formed_fixed_point [OF nfkd_sample_ascii] well_formed_example nfkd_sample_ascii
  by auto

text \<open>
  C9. \<open>sanitize_name\<close> keeps every dot that the ASCII fold leaves: the dots of the output
  are those of the folded name, a name made of dots only is returned as it is, and outputs
  can start with a dot, end with one and hold consecutive ones; the second and third parts
  for a normalisation that leaves ASCII text as it is.
\<close>

theorem sanitize_name_keeps_dots:
  assumes "nfkd_ascii_id nfkd"
  shows "filter (\<lambda>c. c = dot) (sanitize_name nfkd s) = filter (\<lambda>c. c = dot) (ascii_ignore (nfkd s)) \<and>
         sanitize_name nfkd (replicate n dot) = replicate n dot \<and>
         (\<exists>t. prefix [dot] (sanitize_name nfkd t) \<and> suffix [dot] (sanitize_name nfkd t) \<and>
              sublist [dot, dot] (sanitize_name nfkd t))"
proof -
  have dots: "sanitize_name nfkd (replicate k dot) = replicate k dot" for k
    using assms dots_well_formed by (rule well_formed_fixed)
  have "sanitize_name nfkd [dot, dot] = [dot, dot]"
    using dots [of 2] by (simp add: numeral_2_eq_2)
  then have "prefix [dot] (sanitize_name nfkd [dot, dot]) \<and>
      suffix [dot] (sanitize_name nfkd [dot, dot]) \<and> sublist [dot, dot] (sanitize_name nfkd [dot, dot])"
    by (simp add: suffix_to_prefix)
  then show ?thesis
    using dots sanitize_dots by blast
qed

theorem sanitize_name_keeps_dots_witness:
  "nfkd_ascii_id nfkd_sample \<and>
   sanitize_name nfkd_sample (ustr ''.'') = ustr ''.'' \<and>
   sanitize_name nfkd_sample (ustr ''..'') = ustr ''..'' \<and>
   filter (\<lambda>c. c = dot) (sanitize_name nfkd_sample (ustr ''..A b..c.'')) = ustr ''.....''"
proof -
  have 1: "replicate 1 dot = ustr ''.''" and 2: "replicate 2 dot = ustr ''..''"
    by (simp_all add: ustr_def dot_def numeral_2_eq_2)
  have 3: "filter (\<lambda>c. c = dot) (ascii_ignore (nfkd_sample (ustr ''..A b..c.''))) = ustr ''.....''"
    by (simp add: sanitize_eval)
  show ?thesis
    using sanitize_name_keeps_dots [OF nfkd_sample_ascii, of "ustr ''..A b..c.''" 1]
      sanitize_name_keeps_dots [OF nfkd_sample_ascii, of "ustr ''..A b..c.''" 2]
    by (simp only: 1 2 3 nfkd_sample_ascii simp_thms)
qed


section \<open>Properties of the Tree Renamer\<close>

lemmas lookup_eval =
  fs_is_dir_def fs_exists_def os_stat_def ignore_error_def no_fault_def ustr_def char_defs

lemmas snapshot_eval = rglob_def sort_by_depth_def depth_def lookup_eval

subsection \<open>Path resolution in the examples\<close>

text \<open>
  A directory written with \<open>..\<close> lists its entries under the path as written; \<open>..\<close>
  below a file or below a missing name does not resolve.
\<close>

lemma rglob_dotdot:
  "rglob no_fault tree_nested [ustr ''root'', ustr ''A'', ustr ''..''] =
     Inr [[ustr ''root'', ustr ''A'', ustr ''..'', ustr ''A''],
          [ustr ''root'', ustr ''A'', ustr ''..'', ustr ''A'', ustr ''b.TXT'']]"
  by (simp add: snapshot_eval tree_nested_def)

lemma exists_dotdot:
  "fs_exists no_fault tree_plain [ustr ''root'', ustr ''notes.txt'', ustr ''..''] = Inr False \<and>
   fs_exists no_fault tree_plain [ustr ''root'', ustr ''missing'', ustr ''..''] = Inr False \<and>
   fs_exists no_fault tree_plain [ustr ''root'', ustr ''..'', ustr ''root''] = Inr True"
  by (simp add: lookup_eval tree_plain_def)

subsection \<open>The processing order\<close>

lemma sort_by_depth_order:
  assumes "i < length ps" and "j < length ps"
    and "strict_prefix (sort_by_depth ps ! j) (sort_by_depth ps ! i)"
  shows "i < j"
proof (rule ccontr)
  let ?qs = "sort_by_depth ps"
  let ?f = "\<lambda>p. - int (depth p)"
  assume "\<not> i < j"
  then have ji: "j \<le> i" by simp
  have "sorted (map ?f ?qs)"
    by (simp add: sort_by_depth_def)
  moreover note ji
  moreover have "i < length (map ?f ?qs)"
    using assms(1) by (simp add: sort_by_depth_def)
  ultimately have "map ?f ?qs ! j \<le> map ?f ?qs ! i"
    by (rule sorted_nth_mono)
  then have "depth (?qs ! i) \<le> depth (?qs ! j)"
    using assms(1,2) by (simp add: sort_by_depth_def)
  moreover have "depth (?qs ! j) < depth (?qs ! i)"
    using assms(3) by (auto simp: depth_def strict_prefix_def prefix_def)
  ultimately show False by simp
qed

lemma sort_by_depth_mset: "mset (sort_by_depth ps) = mset ps"
  by (simp add: sort_by_depth_def)

lemma rename_files_sequence:
  assumes "fs_exists fault fs root = Inr True" and "rglob fault fs root = Inr snapshot"
  shows "rename_files nfkd fault root dry_run fs =
     (process nfkd fault (sort_by_depth snapshot) dry_run fs)
       \<lparr>events := Found (length (sort_by_depth snapshot)) #
          events (process nfkd fault (sort_by_depth snapshot) dry_run fs)\<rparr>"
  using assms by (simp add: rename_files_def Let_def)

lemma nested_root: "fs_exists no_fault tree_nested [ustr ''root''] = Inr True"
  by (simp add: lookup_eval tree_nested_def)

lemma nested_snapshot:
  "rglob no_fault tree_nested [ustr ''root''] =
     Inr [[ustr ''root'', ustr ''A''], [ustr ''root'', ustr ''A'', ustr ''b.TXT'']]"
  by (simp add: snapshot_eval tree_nested_def)

lemma nested_order:
  "sort_by_depth [[ustr ''root'', ustr ''A''], [ustr ''root'', ustr ''A'', ustr ''b.TXT'']] =
     [[ustr ''root'', ustr ''A'', ustr ''b.TXT''], [ustr ''root'', ustr ''A'']]"
  by (simp add: sort_by_depth_def depth_def)

text \<open>
  The loop takes the entries one after the other: one entry is \<open>is_dir\<close> and then
  \<open>rename_item\<close>, and the entries after any point are processed in the filesystem that
  those before it have left, unless one of them raised.
\<close>

lemma process_single:
  "process nfkd fault [p] dry_run fs =
     (case fs_is_dir fault fs p of
        Inl e \<Rightarrow> \<lparr>raised = Some e, fs_after = fs, events = []\<rparr>
      | Inr d \<Rightarrow> rename_item nfkd fault p (if d then FOLDER else FILE) dry_run fs)"
  by (simp add: Let_def split: sum.splits option.splits)

lemma process_append:
  "process nfkd fault (xs @ ys) dry_run fs =
     (case raised (process nfkd fault xs dry_run fs) of
        Some e \<Rightarrow> process nfkd fault xs dry_run fs
      | None \<Rightarrow>
          (process nfkd fault ys dry_run (fs_after (process nfkd fault xs dry_run fs)))
            \<lparr>events := events (process nfkd fault xs dry_run fs) @
               events (process nfkd fault ys dry_run
                 (fs_after (process nfkd fault xs dry_run fs)))\<rparr>)"
proof (induction xs arbitrary: fs)
  case Nil
  then show ?case by simp
next
  case (Cons x xs)
  show ?case
  proof (cases "fs_is_dir fault fs x")
    case (Inl e)
    then show ?thesis by simp
  next
    case (Inr d)
    define item where "item = rename_item nfkd fault x (if d then FOLDER else FILE) dry_run fs"
    have step: "process nfkd fault (x # zs) dry_run fs =
        (case raised item of
           Some e \<Rightarrow> item
         | None \<Rightarrow>
             (process nfkd fault zs dry_run (fs_after item))
               \<lparr>events := events item @ events (process nfkd fault zs dry_run (fs_after item))\<rparr>)"
      for zs
      using Inr by (simp add: item_def Let_def split del: if_split split: option.splits)
    show ?thesis
    proof (cases "raised item")
      case (Some e)
      then show ?thesis
        by (simp only: append_Cons step option.case)
    next
      case None
      show ?thesis
      proof (cases "raised (process nfkd fault xs dry_run (fs_after item))")
        case (Some e)
        with None show ?thesis
          by (simp add: step Cons.IH del: process.simps append_Cons)
            (simp add: step Cons.IH del: process.simps)
      next
        case inner: None
        with None show ?thesis
          by (simp add: step Cons.IH del: process.simps append_Cons)
            (simp add: step Cons.IH del: process.simps)
      qed
    qed
  qed
qed

lemma process_at:
  assumes "i < length ps"
  shows "process nfkd fault ps dry_run fs =
     (let before = process nfkd fault (take i ps) dry_run fs in
      case raised before of
        Some e \<Rightarrow> before
      | None \<Rightarrow>
          (case fs_is_dir fault (fs_after before) (ps ! i) of
             Inl e \<Rightarrow> \<lparr>raised = Some e, fs_after = fs_after before, events = events before\<rparr>
           | Inr d \<Rightarrow>
               (let item = rename_item nfkd fault (ps ! i) (if d then FOLDER else FILE)
                             dry_run (fs_after before) in
                case raised item of
                  Some e \<Rightarrow> item\<lparr>events := events before @ events item\<rparr>
                | None \<Rightarrow>
                    (let rest = process nfkd fault (drop (Suc i) ps) dry_run (fs_after item)
                     in rest\<lparr>events := events before @ events item @ events rest\<rparr>))))"
proof -
  define before where "before = process nfkd fault (take i ps) dry_run fs"
  from assms have split: "ps = take i ps @ (ps ! i) # drop (Suc i) ps"
    by (simp add: id_take_nth_drop)
  have "process nfkd fault ps dry_run fs =
      process nfkd fault (take i ps @ (ps ! i) # drop (Suc i) ps) dry_run fs"
    using split by simp
  also have "\<dots> =
      (case raised before of
         Some e \<Rightarrow> before
       | None \<Rightarrow>
           (process nfkd fault ((ps ! i) # drop (Suc i) ps) dry_run (fs_after before))
             \<lparr>events := events before @
                events (process nfkd fault ((ps ! i) # drop (Suc i) ps) dry_run
                  (fs_after before))\<rparr>)"
    unfolding before_def by (rule process_append)
  finally have whole: "process nfkd fault ps dry_run fs =
      (case raised before of
         Some e \<Rightarrow> before
       | None \<Rightarrow>
           (process nfkd fault ((ps ! i) # drop (Suc i) ps) dry_run (fs_after before))
             \<lparr>events := events before @
                events (process nfkd fault ((ps ! i) # drop (Suc i) ps) dry_run
                  (fs_after before))\<rparr>)" .
  show ?thesis
  proof (cases "raised before")
    case (Some e)
    with whole show ?thesis
      by (simp add: before_def [symmetric] Let_def)
  next
    case None
    show ?thesis
    proof (cases "fs_is_dir fault (fs_after before) (ps ! i)")
      case (Inl e)
      with None whole show ?thesis
        by (simp add: before_def [symmetric] Let_def)
    next
      case (Inr d)
      define item where "item =
        rename_item nfkd fault (ps ! i) (if d then FOLDER else FILE) dry_run (fs_after before)"
      have step: "process nfkd fault ((ps ! i) # drop (Suc i) ps) dry_run (fs_after before) =
          (case raised item of
             Some e \<Rightarrow> item
           | None \<Rightarrow>
               (process nfkd fault (drop (Suc i) ps) dry_run (fs_after item))
                 \<lparr>events := events item @
                    events (process nfkd fault (drop (Suc i) ps) dry_run (fs_after item))\<rparr>)"
        using Inr by (simp add: item_def Let_def split del: if_split split: option.splits)
      show ?thesis
      proof (cases "raised item")
        case (Some e)
        with None Inr whole step show ?thesis
          by (simp add: before_def [symmetric] item_def [symmetric] Let_def split del: if_split)
      next
        case inner: None
        with None Inr whole step show ?thesis
          by (simp add: before_def [symmetric] item_def [symmetric] Let_def split del: if_split)
      qed
    qed
  qed
qed

text \<open>
  C2. For a root that exists, \<open>rename_files\<close> runs its loop over the snapshot of \<open>rglob\<close>
  sorted by depth, deepest first, and over nothing else: every entry of the snapshot is in
  that sequence, as often as in the snapshot; for every two of its entries where \<open>P\<close> is
  an ancestor directory of \<open>D\<close>, \<open>D\<close> stands at a strictly smaller index than \<open>P\<close>; and
  the loop processes the sequence in its order, each entry in the filesystem that the
  entries before it have left.
\<close>

theorem descendants_before_ancestors:
  assumes "fs_exists fault fs root = Inr True" and "rglob fault fs root = Inr snapshot"
    and "ps = sort_by_depth snapshot"
  shows "rename_files nfkd fault root dry_run fs =
           (process nfkd fault ps dry_run fs)
             \<lparr>events := Found (length ps) # events (process nfkd fault ps dry_run fs)\<rparr> \<and>
         mset ps = mset snapshot \<and>
         (\<forall>i j. i < length ps \<and> j < length ps \<and> strict_prefix (ps ! j) (ps ! i) \<longrightarrow> i < j) \<and>
         (\<forall>i. i < length ps \<longrightarrow>
            process nfkd fault ps dry_run fs =
              (let before = process nfkd fault (take i ps) dry_run fs in
               case raised before of
                 Some e \<Rightarrow> before
               | None \<Rightarrow>
                   (case fs_is_dir fault (fs_after before) (ps ! i) of
                      Inl e \<Rightarrow> \<lparr>raised = Some e, fs_after = fs_after before,
                                events = events before\<rparr>
                    | Inr d \<Rightarrow>
                        (let item = rename_item nfkd fault (ps ! i) (if d then FOLDER else FILE)
                                      dry_run (fs_after before) in
                         case raised item of
                           Some e \<Rightarrow> item\<lparr>events := events before @ events item\<rparr>
                         | None \<Rightarrow>
                             (let rest = process nfkd fault (drop (Suc i) ps) dry_run
                                           (fs_after item)
                              in rest\<lparr>events := events before @ events item @ events rest\<rparr>)))))"
proof (intro conjI allI impI)
  show "rename_files nfkd fault root dry_run fs =
      (process nfkd fault ps dry_run fs)
        \<lparr>events := Found (length ps) # events (process nfkd fault ps dry_run fs)\<rparr>"
    unfolding assms(3) using assms(1,2) by (rule rename_files_sequence)
  show "mset ps = mset snapshot"
    unfolding assms(3) by (rule sort_by_depth_mset)
next
  fix i j
  assume "i < length ps \<and> j < length ps \<and> strict_prefix (ps ! j) (ps ! i)"
  then have "i < length snapshot" and "j < length snapshot"
    and "strict_prefix (sort_by_depth snapshot ! j) (sort_by_depth snapshot ! i)"
    by (simp_all add: assms(3) sort_by_depth_def)
  then show "i < j"
    by (rule sort_by_depth_order)
next
  fix i
  assume "i < length ps"
  then show "process nfkd fault ps dry_run fs =
      (let before = process nfkd fault (take i ps) dry_run fs in
       case raised before of
         Some e \<Rightarrow> before
       | None \<Rightarrow>
           (case fs_is_dir fault (fs_after before) (ps ! i) of
              Inl e \<Rightarrow> \<lparr>raised = Some e, fs_after = fs_after before,
                        events = events before\<rparr>
            | Inr d \<Rightarrow>
                (let item = rename_item nfkd fault (ps ! i) (if d then FOLDER else FILE)
                              dry_run (fs_after before) in
                 case raised item of
                   Some e \<Rightarrow> item\<lparr>events := events before @ events item\<rparr>
                 | None \<Rightarrow>
                     (let rest = process nfkd fault (drop (Suc i) ps) dry_run
                                   (fs_after item)
                      in rest\<lparr>events := events before @ events item @ events rest\<rparr>))))"
    by (rule process_at)
qed

theorem descendants_before_ancestors_witness:
  "fs_exists no_fault tree_nested [ustr ''root''] = Inr True \<and>
   rglob no_fault tree_nested [ustr ''root''] =
     Inr [[ustr ''root'', ustr ''A''], [ustr ''root'', ustr ''A'', ustr ''b.TXT'']] \<and>
   rename_files nfkd_sample no_fault [ustr ''root''] True tree_nested =
     (process nfkd_sample no_fault
        [[ustr ''root'', ustr ''A'', ustr ''b.TXT''], [ustr ''root'', ustr ''A'']] True tree_nested)
       \<lparr>events := Found 2 # events (process nfkd_sample no_fault
          [[ustr ''root'', ustr ''A'', ustr ''b.TXT''], [ustr ''root'', ustr ''A'']] True
          tree_nested)\<rparr> \<and>
   strict_prefix [ustr ''root'', ustr ''A''] [ustr ''root'', ustr ''A'', ustr ''b.TXT''] \<and>
   (0::nat) < 1"
proof -
  let ?ps = "[[ustr ''root'', ustr ''A'', ustr ''b.TXT''], [ustr ''root'', ustr ''A'']]"
  note th = descendants_before_ancestors [OF nested_root nested_snapshot nested_order [symmetric],
      of nfkd_sample True]
  have run: "rename_files nfkd_sample no_fault [ustr ''root''] True tree_nested =
      (process nfkd_sample no_fault ?ps True tree_nested)
        \<lparr>events := Found 2 # events (process nfkd_sample no_fault ?ps True tree_nested)\<rparr>"
    using th [THEN conjunct1] by (simp del: process.simps)
  have "0 < length ?ps \<and> 1 < length ?ps \<and> strict_prefix (?ps ! 1) (?ps ! 0)"
    by simp
  then have "(0::nat) < 1"
    by (rule th [THEN conjunct2, THEN conjunct2, THEN conjunct1, rule_format])
  moreover have "strict_prefix [ustr ''root'', ustr ''A''] [ustr ''root'', ustr ''A'', ustr ''b.TXT'']"
    by simp
  ultimately show ?thesis
    using run nested_root nested_snapshot by (simp del: process.simps)
qed


subsection \<open>One entry\<close>

text \<open>
  Whatever the rename call raises is caught; \<open>with_name\<close> and \<open>exists\<close> stand outside
  the \<open>try\<close>, and what they raise leaves \<open>rename_item\<close>.
\<close>

lemma rename_item_raises:
  "raised (rename_item nfkd fault p k dry_run fs) =
     (case with_name p (sanitize_name nfkd (path_name p)) of
        Inl e \<Rightarrow> Some e
      | Inr q \<Rightarrow>
          if p = q then None
          else (case fs_exists fault fs q of Inl e \<Rightarrow> Some e | Inr b \<Rightarrow> None))"
  by (simp add: rename_item_def Let_def split: sum.splits bool.splits)

lemma rename_item_events_le: "length (events (rename_item nfkd fault p k dry_run fs)) \<le> 1"
  by (simp add: rename_item_def Let_def split: sum.splits bool.splits)

lemma rename_item_dry_fs: "fs_after (rename_item nfkd fault p k True fs) = fs"
  by (simp add: rename_item_def Let_def split: sum.splits bool.splits)

lemma rename_item_dry_events:
  "list_all (dry_run_event nfkd) (events (rename_item nfkd fault p k True fs))"
  by (simp add: rename_item_def Let_def dry_run_event_def split: sum.splits bool.splits)

lemma rename_item_collision:
  assumes "with_name p (sanitize_name nfkd (path_name p)) = Inr q" and "q \<noteq> p"
    and "fs_exists fault fs q = Inr True"
  shows "rename_item nfkd fault p k dry_run fs =
    \<lparr>raised = None, fs_after = fs, events = [Collision q]\<rparr>"
  using assms by (auto simp: rename_item_def Let_def)

lemma rename_item_simulated:
  assumes "with_name p (sanitize_name nfkd (path_name p)) = Inr q" and "q \<noteq> p"
    and "fs_exists fault fs q = Inr False"
  shows "rename_item nfkd fault p k True fs =
    \<lparr>raised = None, fs_after = fs,
     events = [DryRun k (path_name p) (sanitize_name nfkd (path_name p))]\<rparr>"
  using assms by (auto simp: rename_item_def Let_def)

subsection \<open>The loop in a dry run\<close>

lemma process_dry_fs: "fs_after (process nfkd fault ps True fs) = fs"
proof (induction ps)
  case Nil
  then show ?case by simp
next
  case (Cons p ps)
  then show ?case
    by (simp add: Let_def rename_item_dry_fs split: option.splits sum.splits)
qed

lemma process_dry_events:
  "list_all (dry_run_event nfkd) (events (process nfkd fault ps True fs))"
proof (induction ps)
  case Nil
  then show ?case by simp
next
  case (Cons p ps)
  then show ?case
    by (simp add: Let_def rename_item_dry_fs rename_item_dry_events
        split: option.splits sum.splits)
qed


subsection \<open>The names and entries of the examples\<close>

lemma sanitize_blank: "sanitize_name nfkd_sample (ustr ''___'') = []"
  by (simp add: sanitize_eval)

lemma sanitize_notes: "sanitize_name nfkd_sample (ustr ''notes.txt'') = ustr ''notes.txt''"
  by (simp add: sanitize_eval)

lemma sanitize_File: "sanitize_name nfkd_sample (ustr ''File.txt'') = ustr ''file.txt''"
  by (simp add: sanitize_eval)

lemma sanitize_b_TXT: "sanitize_name nfkd_sample (ustr ''b.TXT'') = ustr ''b.txt''"
  by (simp add: sanitize_eval)

lemma sanitize_A: "sanitize_name nfkd_sample (ustr ''A'') = ustr ''a''"
  by (simp add: sanitize_eval)

lemma sanitize_B_txt: "sanitize_name nfkd_sample (ustr ''B.txt'') = ustr ''b.txt''"
  by (simp add: sanitize_eval)

lemma blank_root: "fs_exists no_fault tree_blank [ustr ''root''] = Inr True"
  by (simp add: lookup_eval tree_blank_def)

lemma blank_snapshot:
  "rglob no_fault tree_blank [ustr ''root''] =
     Inr [[ustr ''root'', ustr ''B.txt''], [ustr ''root'', ustr ''d''],
          [ustr ''root'', ustr ''d'', ustr ''___'']]"
  by (simp add: snapshot_eval tree_blank_def)

lemma blank_order:
  "sort_by_depth [[ustr ''root'', ustr ''B.txt''], [ustr ''root'', ustr ''d''],
      [ustr ''root'', ustr ''d'', ustr ''___'']] =
     [[ustr ''root'', ustr ''d'', ustr ''___''], [ustr ''root'', ustr ''B.txt''],
      [ustr ''root'', ustr ''d'']]"
  by (simp add: sort_by_depth_def depth_def)

lemma blank_kind:
  "fs_is_dir no_fault tree_blank [ustr ''root'', ustr ''d'', ustr ''___''] = Inr False"
  by (simp add: lookup_eval tree_blank_def)

lemma blank_item:
  "rename_item nfkd_sample no_fault [ustr ''root'', ustr ''d'', ustr ''___''] k False tree_blank =
     \<lparr>raised = Some ValueError, fs_after = tree_blank, events = []\<rparr>"
  by (simp add: rename_item_def path_name_def with_name_def sanitize_blank) (simp add: ustr_def)

text \<open>What the aborted run never reaches: \<open>B.txt\<close> alone is renamed.\<close>

lemma blank_B_txt:
  "rename_item nfkd_sample no_fault [ustr ''root'', ustr ''B.txt''] FILE False tree_blank =
     \<lparr>raised = None,
      fs_after =
        [([ustr ''root''], FOLDER),
         ([ustr ''root'', ustr ''b.txt''], FILE),
         ([ustr ''root'', ustr ''d''], FOLDER),
         ([ustr ''root'', ustr ''d'', ustr ''___''], FILE)],
      events = [Success (ustr ''B.txt'') (ustr ''b.txt'')]\<rparr>"
  by (simp add: rename_item_def path_name_def with_name_def sanitize_B_txt)
    (simp add: fs_rename_def lookup_eval tree_blank_def Let_def)

subsection \<open>Guarantees and limits of the Tree Renamer\<close>

text \<open>
  C1. A name that sanitizes to the empty string makes \<open>with_name\<close> raise \<open>ValueError\<close>,
  outside the \<open>try\<close> of \<open>rename_item\<close>: the run of \<open>rename_files\<close> ends there, and
  \<open>B.txt\<close> and \<open>d\<close>, which come later in the sequence, are never processed.
\<close>

theorem rename_files_blank_name_aborts:
  "sanitize_name nfkd_sample (ustr ''___'') = [] \<and>
   rename_files nfkd_sample no_fault [ustr ''root''] False tree_blank =
     \<lparr>raised = Some ValueError, fs_after = tree_blank, events = [Found 3]\<rparr>"
  by (simp add: sanitize_blank rename_files_def blank_root blank_snapshot blank_order blank_kind
      blank_item)

lemma plain_item:
  "rename_item nfkd_sample no_fault [ustr ''root'', ustr ''notes.txt''] k dry_run tree_plain =
     \<lparr>raised = None, fs_after = tree_plain, events = []\<rparr>"
  by (simp add: rename_item_def path_name_def with_name_def sanitize_notes) (simp add: ustr_def char_defs)

lemma plain_root: "fs_exists no_fault tree_plain [ustr ''root''] = Inr True"
  by (simp add: lookup_eval tree_plain_def)

lemma plain_snapshot:
  "rglob no_fault tree_plain [ustr ''root''] = Inr [[ustr ''root'', ustr ''notes.txt'']]"
  by (simp add: snapshot_eval tree_plain_def)

lemma plain_order:
  "sort_by_depth [[ustr ''root'', ustr ''notes.txt'']] = [[ustr ''root'', ustr ''notes.txt'']]"
  by (simp add: sort_by_depth_def)

lemma plain_file:
  "fs_exists no_fault tree_plain [ustr ''root'', ustr ''notes.txt''] = Inr True \<and>
   fs_is_dir no_fault tree_plain [ustr ''root'', ustr ''notes.txt''] = Inr False"
  by (simp add: lookup_eval tree_plain_def)


text \<open>
  C5, as the code has it. An entry whose name is already its sanitized form is passed over
  in silence: \<open>rename_item\<close> returns at once, with no log record, no exception and the
  filesystem as it was. No entry yields more than one record.
\<close>

theorem unchanged_name_is_silent:
  assumes "sanitize_name nfkd (path_name p) = path_name p"
    and "path_name p \<noteq> []" and "path_name p \<noteq> [dot]"
  shows "rename_item nfkd fault p k dry_run fs = \<lparr>raised = None, fs_after = fs, events = []\<rparr> \<and>
         length (events (rename_item nfkd fault p' k' dry_run' fs')) \<le> 1"
proof -
  have "well_formed (path_name p)"
    using sanitize_well_formed [of nfkd "path_name p"] assms(1) by simp
  then have "set (path_name p) \<subseteq> set alphabet"
    by (simp add: well_formed_def)
  moreover have "slash \<notin> set alphabet"
    by (simp add: alphabet_codes slash_def)
  ultimately have "slash \<notin> set (path_name p)"
    by blast
  moreover from assms(2) have "butlast p @ [path_name p] = p"
    by (auto simp: path_name_def split: if_splits)
  ultimately have "rename_item nfkd fault p k dry_run fs = \<lparr>raised = None, fs_after = fs, events = []\<rparr>"
    using assms by (simp add: rename_item_def with_name_def)
  then show ?thesis
    using rename_item_events_le [of nfkd fault p' k' dry_run' fs'] by (rule conjI)
qed

theorem unchanged_name_is_silent_witness:
  "sanitize_name nfkd_sample (ustr ''notes.txt'') = ustr ''notes.txt'' \<and>
   rename_item nfkd_sample no_fault [ustr ''root'', ustr ''notes.txt''] FILE False tree_plain =
     \<lparr>raised = None, fs_after = tree_plain, events = []\<rparr>"
proof -
  have n: "path_name [ustr ''root'', ustr ''notes.txt''] = ustr ''notes.txt''"
    by (simp add: path_name_def)
  have "ustr ''notes.txt'' \<noteq> []" and "ustr ''notes.txt'' \<noteq> [dot]"
    by (simp_all add: ustr_def)
  then show ?thesis
    using unchanged_name_is_silent [of nfkd_sample "[ustr ''root'', ustr ''notes.txt'']"
        no_fault FILE False tree_plain] sanitize_notes
    by (simp add: n)
qed

text \<open>
  No \<open>Skipped-NoChange\<close> record exists in the code: the unchanged entry yields no record
  at all, and the run over the tree logs only its count of items.
\<close>

theorem unchanged_name_no_outcome:
  "sanitize_name nfkd_sample (path_name [ustr ''root'', ustr ''notes.txt'']) =
     path_name [ustr ''root'', ustr ''notes.txt''] \<and>
   length (events (rename_item nfkd_sample no_fault [ustr ''root'', ustr ''notes.txt''] FILE False
     tree_plain)) \<noteq> 1 \<and>
   events (rename_files nfkd_sample no_fault [ustr ''root''] False tree_plain) = [Found 1]"
  by (simp add: path_name_def sanitize_notes plain_item rename_files_def plain_root plain_snapshot
      plain_order plain_file)






lemma clash_target:
  "with_name [ustr ''root'', ustr ''File.txt'']
     (sanitize_name nfkd_sample (path_name [ustr ''root'', ustr ''File.txt''])) =
   Inr [ustr ''root'', ustr ''file.txt'']"
  by (simp add: path_name_def with_name_def sanitize_File) (simp add: ustr_def char_defs)

lemma clash_exists:
  "fs_exists no_fault tree_clash [ustr ''root'', ustr ''File.txt''] = Inr True \<and>
   fs_exists no_fault tree_clash [ustr ''root'', ustr ''file.txt''] = Inr True \<and>
   fs_is_dir no_fault tree_clash [ustr ''root'', ustr ''File.txt''] = Inr False"
  by (simp add: lookup_eval tree_clash_def)

lemma clash_distinct: "[ustr ''root'', ustr ''file.txt''] \<noteq> [ustr ''root'', ustr ''File.txt'']"
  by (simp add: ustr_def)

text \<open>
  When the lookups answer, a taken name is skipped: \<open>rename_item\<close> logs the collision,
  calls no rename, raises nothing and leaves the filesystem as it was, with both names;
  the loop goes on with the next entry.
\<close>

lemma collision_skipped_when_answered:
  assumes "with_name p (sanitize_name nfkd (path_name p)) = Inr q" and "q \<noteq> p"
    and "fs_exists fault fs q = Inr True" and "fs_is_dir fault fs p = Inr d"
  shows "rename_item nfkd fault p k dry_run fs =
           \<lparr>raised = None, fs_after = fs, events = [Collision q]\<rparr> \<and>
         process nfkd fault (p # ps) dry_run fs =
           (process nfkd fault ps dry_run fs)
             \<lparr>events := Collision q # events (process nfkd fault ps dry_run fs)\<rparr>"
proof -
  have item: "rename_item nfkd fault p k' dry_run fs =
      \<lparr>raised = None, fs_after = fs, events = [Collision q]\<rparr>" for k'
    using assms(1-3) by (rule rename_item_collision)
  then show ?thesis
    using assms(4) by (simp add: Let_def)
qed

lemma clash_skipped:
  "rename_files nfkd_sample no_fault [ustr ''root''] False tree_clash =
     \<lparr>raised = None, fs_after = tree_clash,
      events = [Found 2, Collision [ustr ''root'', ustr ''file.txt'']]\<rparr>"
proof -
  have root: "fs_exists no_fault tree_clash [ustr ''root''] = Inr True"
    by (simp add: lookup_eval tree_clash_def)
  have snapshot: "rglob no_fault tree_clash [ustr ''root''] =
      Inr [[ustr ''root'', ustr ''File.txt''], [ustr ''root'', ustr ''file.txt'']]"
    by (simp add: snapshot_eval tree_clash_def)
  have order: "sort_by_depth [[ustr ''root'', ustr ''File.txt''], [ustr ''root'', ustr ''file.txt'']] =
      [[ustr ''root'', ustr ''File.txt''], [ustr ''root'', ustr ''file.txt'']]"
    by (simp add: sort_by_depth_def depth_def)
  have kind: "fs_is_dir no_fault tree_clash [ustr ''root'', ustr ''file.txt''] = Inr False"
    by (simp add: lookup_eval tree_clash_def)
  have same: "rename_item nfkd_sample no_fault [ustr ''root'', ustr ''file.txt''] k False tree_clash =
      \<lparr>raised = None, fs_after = tree_clash, events = []\<rparr>" for k
    by (simp add: rename_item_def path_name_def with_name_def sanitize_eval)
  have first: "process nfkd_sample no_fault
        ([ustr ''root'', ustr ''File.txt''] # [[ustr ''root'', ustr ''file.txt'']]) False tree_clash =
      (process nfkd_sample no_fault [[ustr ''root'', ustr ''file.txt'']] False tree_clash)
        \<lparr>events := Collision [ustr ''root'', ustr ''file.txt''] #
           events (process nfkd_sample no_fault [[ustr ''root'', ustr ''file.txt'']] False
             tree_clash)\<rparr>"
    using collision_skipped_when_answered [OF clash_target clash_distinct, of no_fault tree_clash
        False FILE False "[[ustr ''root'', ustr ''file.txt'']]"] clash_exists
    by (simp del: process.simps)
  have rest: "process nfkd_sample no_fault [[ustr ''root'', ustr ''file.txt'']] False tree_clash =
      \<lparr>raised = None, fs_after = tree_clash, events = []\<rparr>"
    by (simp add: kind same)
  show ?thesis
    by (simp add: rename_files_def root snapshot order first rest del: process.simps)
qed

lemma locked_lookups:
  "fs_exists locked_root tree_clash [ustr ''root''] = Inr True \<and>
   rglob locked_root tree_clash [ustr ''root''] =
     Inr [[ustr ''root'', ustr ''File.txt''], [ustr ''root'', ustr ''file.txt'']] \<and>
   fs_is_dir locked_root tree_clash [ustr ''root'', ustr ''File.txt''] = Inl (OSError EACCES) \<and>
   fs_exists locked_root tree_clash [ustr ''root'', ustr ''file.txt''] = Inl (OSError EACCES)"
  by (simp add: rglob_def fs_is_dir_def fs_exists_def os_stat_def ignore_error_def
      locked_root_def tree_clash_def ustr_def char_defs)

text \<open>
  C7. In a directory that can be listed and not searched, the lookups of an entry whose
  sanitized name is taken by another entry raise \<open>PermissionError\<close>: \<open>exists\<close> in
  \<open>rename_item\<close> and \<open>is_dir\<close> in the loop stand outside the \<open>try\<close>, so the entry is
  not skipped as a collision and the run ends there.
\<close>

theorem collision_lookup_raises:
  "map_of tree_clash [ustr ''root'', ustr ''file.txt''] = Some FILE \<and>
   with_name [ustr ''root'', ustr ''File.txt'']
     (sanitize_name nfkd_sample (path_name [ustr ''root'', ustr ''File.txt''])) =
     Inr [ustr ''root'', ustr ''file.txt''] \<and>
   rename_item nfkd_sample locked_root [ustr ''root'', ustr ''File.txt''] FILE False tree_clash =
     \<lparr>raised = Some (OSError EACCES), fs_after = tree_clash, events = []\<rparr> \<and>
   rename_files nfkd_sample locked_root [ustr ''root''] False tree_clash =
     \<lparr>raised = Some (OSError EACCES), fs_after = tree_clash, events = [Found 2]\<rparr>"
proof -
  have entry: "map_of tree_clash [ustr ''root'', ustr ''file.txt''] = Some FILE"
    by (simp add: tree_clash_def ustr_def)
  have order: "sort_by_depth [[ustr ''root'', ustr ''File.txt''], [ustr ''root'', ustr ''file.txt'']] =
      [[ustr ''root'', ustr ''File.txt''], [ustr ''root'', ustr ''file.txt'']]"
    by (simp add: sort_by_depth_def depth_def)
  have item: "rename_item nfkd_sample locked_root [ustr ''root'', ustr ''File.txt''] FILE False
      tree_clash = \<lparr>raised = Some (OSError EACCES), fs_after = tree_clash, events = []\<rparr>"
    using clash_target clash_distinct locked_lookups
    by (simp add: rename_item_def Let_def)
  have "rename_files nfkd_sample locked_root [ustr ''root''] False tree_clash =
      \<lparr>raised = Some (OSError EACCES), fs_after = tree_clash, events = [Found 2]\<rparr>"
    using locked_lookups by (simp add: rename_files_def order)
  with entry clash_target item show ?thesis
    by (simp del: process.simps)
qed

text \<open>
  C8. A run of \<open>rename_files\<close> with \<open>dry_run=True\<close> leaves the filesystem as it was,
  whatever the root, the tree and the environment. It logs nothing but its own messages,
  collisions and would-be renames, each with the old name and its sanitized form, and an
  entry whose sanitized sibling path is free and differs from its own yields exactly that
  record.
\<close>

theorem dry_run_no_mutation:
  "fs_after (rename_files nfkd fault root True fs) = fs \<and>
   list_all (dry_run_event nfkd) (events (rename_files nfkd fault root True fs)) \<and>
   (with_name p (sanitize_name nfkd (path_name p)) = Inr q \<and> q \<noteq> p \<and>
    fs_exists fault fs q = Inr False \<longrightarrow>
      rename_item nfkd fault p k True fs =
        \<lparr>raised = None, fs_after = fs,
         events = [DryRun k (path_name p) (sanitize_name nfkd (path_name p))]\<rparr>)"
proof (intro conjI impI)
  show "fs_after (rename_files nfkd fault root True fs) = fs"
    by (simp add: rename_files_def Let_def process_dry_fs split: sum.splits bool.splits)
  show "list_all (dry_run_event nfkd) (events (rename_files nfkd fault root True fs))"
    by (simp add: rename_files_def Let_def process_dry_events dry_run_event_def
        split: sum.splits bool.splits)
  assume "with_name p (sanitize_name nfkd (path_name p)) = Inr q \<and> q \<noteq> p \<and>
    fs_exists fault fs q = Inr False"
  then show "rename_item nfkd fault p k True fs =
      \<lparr>raised = None, fs_after = fs,
       events = [DryRun k (path_name p) (sanitize_name nfkd (path_name p))]\<rparr>"
    by (simp add: rename_item_simulated)
qed

lemma nested_child:
  "with_name [ustr ''root'', ustr ''A'', ustr ''b.TXT'']
     (sanitize_name nfkd_sample (path_name [ustr ''root'', ustr ''A'', ustr ''b.TXT''])) =
   Inr [ustr ''root'', ustr ''A'', ustr ''b.txt''] \<and>
   [ustr ''root'', ustr ''A'', ustr ''b.txt''] \<noteq> [ustr ''root'', ustr ''A'', ustr ''b.TXT''] \<and>
   fs_exists no_fault tree_nested [ustr ''root'', ustr ''A'', ustr ''b.txt''] = Inr False"
  by (simp add: path_name_def with_name_def sanitize_b_TXT) (simp add: lookup_eval tree_nested_def)

lemma nested_parent:
  "with_name [ustr ''root'', ustr ''A'']
     (sanitize_name nfkd_sample (path_name [ustr ''root'', ustr ''A''])) =
   Inr [ustr ''root'', ustr ''a''] \<and>
   [ustr ''root'', ustr ''a''] \<noteq> [ustr ''root'', ustr ''A''] \<and>
   fs_exists no_fault tree_nested [ustr ''root'', ustr ''a''] = Inr False"
  by (simp add: path_name_def with_name_def sanitize_A) (simp add: lookup_eval tree_nested_def)

lemma nested_kinds:
  "fs_is_dir no_fault tree_nested [ustr ''root'', ustr ''A'', ustr ''b.TXT''] = Inr False \<and>
   fs_is_dir no_fault tree_nested [ustr ''root'', ustr ''A''] = Inr True"
  by (simp add: lookup_eval tree_nested_def)

lemma nested_names:
  "path_name [ustr ''root'', ustr ''A'', ustr ''b.TXT''] = ustr ''b.TXT'' \<and>
   path_name [ustr ''root'', ustr ''A''] = ustr ''A''"
  by (simp add: path_name_def)

text \<open>Two records, child then parent, and the tree as before.\<close>

lemma nested_simulated:
  "rename_files nfkd_sample no_fault [ustr ''root''] True tree_nested =
     \<lparr>raised = None, fs_after = tree_nested,
      events = [Found 2, DryRun FILE (ustr ''b.TXT'') (ustr ''b.txt''),
                DryRun FOLDER (ustr ''A'') (ustr ''a'')]\<rparr>"
  using nested_child nested_parent
  by (simp add: rename_files_def nested_root nested_snapshot nested_order nested_kinds
      rename_item_simulated nested_names sanitize_b_TXT sanitize_A)

theorem dry_run_no_mutation_witness:
  "fs_after (rename_files nfkd_sample no_fault [ustr ''root''] True tree_nested) = tree_nested \<and>
   events (rename_files nfkd_sample no_fault [ustr ''root''] True tree_nested) =
     [Found 2, DryRun FILE (ustr ''b.TXT'') (ustr ''b.txt''), DryRun FOLDER (ustr ''A'') (ustr ''a'')] \<and>
   rename_item nfkd_sample no_fault [ustr ''root'', ustr ''A''] FOLDER True tree_nested =
     \<lparr>raised = None, fs_after = tree_nested,
      events = [DryRun FOLDER (ustr ''A'') (ustr ''a'')]\<rparr>"
  using dry_run_no_mutation [of nfkd_sample no_fault "[ustr ''root'']" tree_nested
      "[ustr ''root'', ustr ''A'']" "[ustr ''root'', ustr ''a'']" FOLDER]
    nested_parent
  by (simp add: nested_simulated nested_names sanitize_A)


end
